theory Spec2Isabelle
  imports Main "HOL-Library.Char_ord" "HOL-Library.List_Lexorder" "HOL-Library.Sublist"
begin

section \<open>The dinner invitation library (src/dinner.py)\<close>

text \<open>
  The library computes a largest list of guests no two of whom dislike each other.
  Its six functions are embedded below, one HOL definition per Python function, with
  the loops, the tests and the order of the statements of the source.

  \<^item> A guest is a Python \<open>str\<close>, here a \<open>string\<close>.
  \<^item> The \<open>friends\<close> argument is a \<open>dict\<close> from a guest to the list of guests it
    dislikes. A \<open>dict\<close> iterates in insertion order, and that order decides the order
    of every result, so the dictionary is an association list in insertion order. A
    \<open>dict\<close> holds each key once: \<open>distinct (dict_keys friends)\<close> is the well-formedness
    of the representation and is a hypothesis wherever a result depends on it.
  \<^item> A Python \<open>set\<close> of tuples is the list of its elements, each once, in insertion
    order. The order in which a \<open>for\<close> loop visits a \<open>set\<close> is not fixed by the
    language (it depends on the hashes of the strings, which change from run to run),
    so the one loop over a set takes the visiting order as a parameter.
  \<^item> \<open>KeyError\<close>, \<open>IndexError\<close> and \<open>ValueError\<close> are values: a function returns
    \<open>Inl\<close> of the error or \<open>Inr\<close> of its result.
\<close>

subsection \<open>Data model\<close>

type_synonym guest = string

type_synonym friends = "(guest \<times> guest list) list"

type_synonym edge = "guest \<times> guest"

type_synonym set_order = "edge list \<Rightarrow> edge list"

datatype error = KeyError guest | IndexError | ValueError

text \<open>\<open>friends.keys()\<close> and \<open>for person in friends\<close>: the keys in insertion order.\<close>

definition dict_keys :: "friends \<Rightarrow> guest list" where
  "dict_keys friends = map fst friends"

text \<open>\<open>friends[k]\<close>: raises \<open>KeyError\<close> when the key is absent.\<close>

definition dict_getitem :: "friends \<Rightarrow> guest \<Rightarrow> error + guest list" where
  "dict_getitem friends k =
     (case map_of friends k of None \<Rightarrow> Inl (KeyError k) | Some v \<Rightarrow> Inr v)"

text \<open>\<open>d[k] = v\<close>: an existing key keeps its place, a new key goes to the end.\<close>

fun dict_setitem :: "friends \<Rightarrow> guest \<Rightarrow> guest list \<Rightarrow> friends" where
  "dict_setitem [] k v = [(k, v)]"
| "dict_setitem ((k', v') # d) k v =
     (if k' = k then (k, v) # d else (k', v') # dict_setitem d k v)"

text \<open>\<open>xs[i]\<close> on a list: a negative index counts from the end, \<open>IndexError\<close> out of range.\<close>

definition list_getitem :: "'a list \<Rightarrow> int \<Rightarrow> error + 'a" where
  "list_getitem xs i =
     (if 0 \<le> i \<and> i < int (length xs) then Inr (xs ! nat i)
      else if i < 0 \<and> - int (length xs) \<le> i then Inr (xs ! nat (int (length xs) + i))
      else Inl IndexError)"

text \<open>\<open>xs.remove(x)\<close>: deletes the first element equal to \<open>x\<close>, \<open>ValueError\<close> if there is none.\<close>

definition list_remove :: "'a \<Rightarrow> 'a list \<Rightarrow> error + 'a list" where
  "list_remove x xs = (if x \<in> set xs then Inr (remove1 x xs) else Inl ValueError)"

text \<open>\<open>s.add(x)\<close> on a set: nothing happens when \<open>x\<close> is already a member.\<close>

definition set_add :: "'a \<Rightarrow> 'a list \<Rightarrow> 'a list" where
  "set_add x s = (if x \<in> set s then s else s @ [x])"

text \<open>
  A \<open>for\<close> loop whose body may raise: the state is threaded through the elements in
  order and the first error ends the loop.
\<close>

fun for_each :: "'a list \<Rightarrow> ('a \<Rightarrow> 's \<Rightarrow> error + 's) \<Rightarrow> 's \<Rightarrow> error + 's" where
  "for_each [] body s = Inr s"
| "for_each (x # xs) body s =
     (case body x s of Inl e \<Rightarrow> Inl e | Inr s' \<Rightarrow> for_each xs body s')"

subsection \<open>find_dislikes\<close>

text \<open>
  \<^verbatim>\<open>
  dislikes = set()
  for person in friends:
      for dislike in friends[person]:
          if (dislike, person) not in dislikes:
              dislikes.add((person, dislike))
  return dislikes
  \<close>
\<close>

definition find_dislikes :: "friends \<Rightarrow> error + edge list" where
  "find_dislikes friends =
     for_each (dict_keys friends)
       (\<lambda>person dislikes.
          case dict_getitem friends person of
            Inl e \<Rightarrow> Inl e
          | Inr listed \<Rightarrow>
              Inr (fold (\<lambda>dislike dislikes.
                           if (dislike, person) \<notin> set dislikes
                           then set_add (person, dislike) dislikes
                           else dislikes)
                        listed dislikes))
       []"

subsection \<open>generate_all_subsets\<close>

text \<open>
  \<^verbatim>\<open>
  friend_list = list(friends.keys())
  n = len(friends)
  all_subsets = []
  for i in range(2**n):
      num = i
      new_subset = []
      for j in range(n):
          if (num % 2 == 1):
              new_subset = [friend_list[n-1-j]] + new_subset
          num = num // 2
      all_subsets.append(new_subset)
  return all_subsets
  \<close>
  The counters of both \<open>range\<close> loops are never negative, so they are naturals; the index
  \<open>n-1-j\<close> is computed in the integers, as Python does.
\<close>

definition subset_of_number :: "guest list \<Rightarrow> nat \<Rightarrow> nat \<Rightarrow> error + (nat \<times> guest list)" where
  "subset_of_number friend_list n i =
     for_each [0..<n]
       (\<lambda>j (num, new_subset).
          if num mod 2 = 1
          then (case list_getitem friend_list (int n - 1 - int j) of
                  Inl e \<Rightarrow> Inl e
                | Inr g \<Rightarrow> Inr (num div 2, [g] @ new_subset))
          else Inr (num div 2, new_subset))
       (i, [])"

definition generate_all_subsets :: "friends \<Rightarrow> error + guest list list" where
  "generate_all_subsets friends =
     (let friend_list = dict_keys friends;
          n = length friends
      in for_each [0..<2 ^ n]
           (\<lambda>i all_subsets.
              case subset_of_number friend_list n i of
                Inl e \<Rightarrow> Inl e
              | Inr (num, new_subset) \<Rightarrow> Inr (all_subsets @ [new_subset]))
           [])"

subsection \<open>filter_bad_invites\<close>

text \<open>
  \<^verbatim>\<open>
  good_invites = all_subsets
  bad_invites = []
  for set in all_subsets:
      for pair in find_dislikes(friends):
          if pair[0] in set and pair[1] in set:
              bad_invites += [set]
  for set in bad_invites:
      if set in good_invites:
          good_invites.remove(set)
  return good_invites
  \<close>
  \<open>good_invites = all_subsets\<close> copies a reference, not a list: both names denote the one
  list object the caller passed, and \<open>remove\<close> changes that object. To keep this visible
  the function is modelled over a store of list and dictionary objects. It takes the
  references of its two arguments and returns the reference of its result with the store
  it leaves behind. \<open>bad_invites\<close> is a new list that never leaves the function, so it
  is a local value. The parameter \<open>iter\<close> is the order in which the loop over the set of
  pairs visits them.
\<close>

type_synonym ref = nat

record heap =
  lists :: "ref \<Rightarrow> guest list list"
  dicts :: "ref \<Rightarrow> friends"

definition collect_bad_invites :: "set_order \<Rightarrow> guest list list \<Rightarrow> friends \<Rightarrow> error + guest list list" where
  "collect_bad_invites iter subsets friends =
     for_each subsets
       (\<lambda>subset bad_invites.
          case find_dislikes friends of
            Inl e \<Rightarrow> Inl e
          | Inr dislikes \<Rightarrow>
              Inr (fold (\<lambda>pair bad_invites.
                           if fst pair \<in> set subset \<and> snd pair \<in> set subset
                           then bad_invites @ [subset]
                           else bad_invites)
                        (iter dislikes) bad_invites))
       []"

definition filter_bad_invites_heap :: "set_order \<Rightarrow> ref \<Rightarrow> ref \<Rightarrow> heap \<Rightarrow> error + (ref \<times> heap)" where
  "filter_bad_invites_heap iter all_subsets friends h =
     (let good_invites = all_subsets
      in case collect_bad_invites iter (lists h all_subsets) (dicts h friends) of
           Inl e \<Rightarrow> Inl e
         | Inr bad_invites \<Rightarrow>
             (case for_each bad_invites
                     (\<lambda>subset h.
                        if subset \<in> set (lists h good_invites)
                        then (case list_remove subset (lists h good_invites) of
                                Inl e \<Rightarrow> Inl e
                              | Inr removed \<Rightarrow>
                                  Inr (h\<lparr>lists := (lists h)(good_invites := removed)\<rparr>))
                        else Inr h)
                     h of
                Inl e \<Rightarrow> Inl e
              | Inr h' \<Rightarrow> Inr (good_invites, h')))"

text \<open>
  The callers inside the library pass a list they have just built and read only the
  list that comes back. For them the call is: put the argument in a store, run the
  function, read the returned reference.
\<close>

definition filter_bad_invites :: "set_order \<Rightarrow> guest list list \<Rightarrow> friends \<Rightarrow> error + guest list list" where
  "filter_bad_invites iter all_subsets friends =
     (case filter_bad_invites_heap iter 0 0
             \<lparr>lists = (\<lambda>r. []) (0 := all_subsets), dicts = (\<lambda>r. friends)\<rparr> of
        Inl e \<Rightarrow> Inl e
      | Inr (good_invites, h') \<Rightarrow> Inr (lists h' good_invites))"

subsection \<open>filter_no_dislikes\<close>

text \<open>
  \<^verbatim>\<open>
  no_dislikes = []
  new_friends = {}
  for item in friends:
      if friends[item] == []:
          no_dislikes += [item]
      else:
          new_friends[item] = friends[item]
  return no_dislikes, new_friends
  \<close>
\<close>

definition filter_no_dislikes :: "friends \<Rightarrow> error + (guest list \<times> friends)" where
  "filter_no_dislikes friends =
     for_each (dict_keys friends)
       (\<lambda>item (no_dislikes, new_friends).
          case dict_getitem friends item of
            Inl e \<Rightarrow> Inl e
          | Inr listed \<Rightarrow>
              if listed = []
              then Inr (no_dislikes @ [item], new_friends)
              else Inr (no_dislikes, dict_setitem new_friends item listed))
       ([], [])"

subsection \<open>invite_to_dinner and invite_to_dinner_optimized\<close>

text \<open>
  Both functions end with the same loop:
  \<^verbatim>\<open>
  invite_list = []
  for potential_subset in good_subsets:
      if len(potential_subset) > len(invite_list):
          invite_list = potential_subset
  \<close>
\<close>

definition longest_invite :: "guest list list \<Rightarrow> guest list" where
  "longest_invite good_subsets =
     fold (\<lambda>potential_subset invite_list.
             if length potential_subset > length invite_list
             then potential_subset else invite_list)
          good_subsets []"

text \<open>
  \<^verbatim>\<open>
  all_subsets = generate_all_subsets(friends)
  good_subsets = filter_bad_invites(all_subsets, friends)
  ... the loop above ...
  return invite_list
  \<close>
\<close>

definition invite_to_dinner :: "set_order \<Rightarrow> friends \<Rightarrow> error + guest list" where
  "invite_to_dinner iter friends =
     (case generate_all_subsets friends of
        Inl e \<Rightarrow> Inl e
      | Inr all_subsets \<Rightarrow>
          (case filter_bad_invites iter all_subsets friends of
             Inl e \<Rightarrow> Inl e
           | Inr good_subsets \<Rightarrow> Inr (longest_invite good_subsets)))"

text \<open>
  \<^verbatim>\<open>
  better = filter_no_dislikes(friends)
  bad_subsets = generate_all_subsets(better[1])
  good_subsets = filter_bad_invites(bad_subsets, friends)
  ... the loop above ...
  invite_list += better[0]
  return invite_list
  \<close>
\<close>

definition invite_to_dinner_optimized :: "set_order \<Rightarrow> friends \<Rightarrow> error + guest list" where
  "invite_to_dinner_optimized iter friends =
     (case filter_no_dislikes friends of
        Inl e \<Rightarrow> Inl e
      | Inr better \<Rightarrow>
          (case generate_all_subsets (snd better) of
             Inl e \<Rightarrow> Inl e
           | Inr bad_subsets \<Rightarrow>
               (case filter_bad_invites iter bad_subsets friends of
                  Inl e \<Rightarrow> Inl e
                | Inr good_subsets \<Rightarrow> Inr (longest_invite good_subsets @ fst better))))"

section \<open>Notions used in the statements\<close>

text \<open>
  None of the definitions of this section is part of the program: they say what the
  theorems below prove about it.
\<close>

subsection \<open>The set of dislike pairs\<close>

text \<open>
  \<open>listed_by friends a b\<close>: \<open>a\<close> is a key of the mapping and \<open>b\<close> is in the list \<open>friends[a]\<close>.
  \<open>one_orientation es\<close>: the set \<open>es\<close> never holds a pair of two different guests in both
  orientations. \<open>has_dislike_pair es s\<close>: some pair of \<open>es\<close> has both of its components
  in the list \<open>s\<close>; this is the test \<open>pair[0] in set and pair[1] in set\<close> of the source,
  and \<open>times_bad ps s\<close> counts the pairs of \<open>ps\<close> that pass it.
\<close>

definition listed_by :: "friends \<Rightarrow> guest \<Rightarrow> guest \<Rightarrow> bool" where
  "listed_by friends a b \<longleftrightarrow>
     a \<in> set (dict_keys friends)
     \<and> (\<exists>listed. dict_getitem friends a = Inr listed \<and> b \<in> set listed)"

definition one_orientation :: "edge list \<Rightarrow> bool" where
  "one_orientation es \<longleftrightarrow> (\<forall>a b. (a, b) \<in> set es \<longrightarrow> a \<noteq> b \<longrightarrow> (b, a) \<notin> set es)"

definition has_dislike_pair :: "edge list \<Rightarrow> guest list \<Rightarrow> bool" where
  "has_dislike_pair es s \<longleftrightarrow> (\<exists>pair \<in> set es. fst pair \<in> set s \<and> snd pair \<in> set s)"

definition times_bad :: "edge list \<Rightarrow> guest list \<Rightarrow> nat" where
  "times_bad ps s = length (filter (\<lambda>pair. fst pair \<in> set s \<and> snd pair \<in> set s) ps)"

text \<open>
  \<open>visits_all iter\<close>: a loop over a set visits exactly the elements of the set, in
  whatever order. Every iteration order of Python satisfies it.
\<close>

definition visits_all :: "set_order \<Rightarrow> bool" where
  "visits_all iter \<longleftrightarrow> (\<forall>es. set (iter es) = set es)"

subsection \<open>Subsets in counting order\<close>

text \<open>
  \<open>chosen_by i xs\<close> is the sublist of \<open>xs\<close> that the number \<open>i\<close> selects: the guest with
  \<open>m\<close> guests after it in \<open>xs\<close> is kept exactly when bit \<open>m\<close> of \<open>i\<close> is set.
  \<open>subsets_in_counting_order xs\<close> lists these sublists for \<open>i\<close> from \<open>0\<close> to
  \<open>2 ^ length xs - 1\<close>, and \<open>valid_subsets es ks\<close> keeps those without a pair of \<open>es\<close>.
\<close>

fun chosen_by :: "nat \<Rightarrow> 'a list \<Rightarrow> 'a list" where
  "chosen_by i [] = []"
| "chosen_by i (x # xs) =
     (if (i div 2 ^ length xs) mod 2 = 1 then x # chosen_by i xs else chosen_by i xs)"

definition subsets_in_counting_order :: "'a list \<Rightarrow> 'a list list" where
  "subsets_in_counting_order xs = map (\<lambda>i. chosen_by i xs) [0..<2 ^ length xs]"

definition valid_subsets :: "edge list \<Rightarrow> guest list \<Rightarrow> guest list list" where
  "valid_subsets es ks = filter (\<lambda>s. \<not> has_dislike_pair es s) (subsets_in_counting_order ks)"

subsection \<open>Selection\<close>

text \<open>
  \<open>first_longest r xs\<close>: \<open>r\<close> stands in \<open>xs\<close> at a position before which every list is
  strictly shorter than \<open>r\<close>, and no list of \<open>xs\<close> is longer than \<open>r\<close>. This is the
  first-found-wins rule of the specification.
\<close>

definition first_longest :: "'a list \<Rightarrow> 'a list list \<Rightarrow> bool" where
  "first_longest r xs \<longleftrightarrow>
     (\<exists>i < length xs. xs ! i = r
        \<and> (\<forall>j < i. length (xs ! j) < length r)
        \<and> (\<forall>j < length xs. length (xs ! j) \<le> length r))"

text \<open>
  The isolated guests are the keys whose own list is empty, in key order; the entangled
  entries are the other entries of the mapping, unchanged and in order.
  \<open>isolated_unlisted friends\<close>: no guest lists an isolated guest. A mapping that lists
  every dislike in both directions satisfies it.
\<close>

definition isolated_guests :: "friends \<Rightarrow> guest list" where
  "isolated_guests friends = map fst (filter (\<lambda>(k, listed). listed = []) friends)"

definition entangled_entries :: "friends \<Rightarrow> friends" where
  "entangled_entries friends = filter (\<lambda>(k, listed). listed \<noteq> []) friends"

definition isolated_unlisted :: "friends \<Rightarrow> bool" where
  "isolated_unlisted friends \<longleftrightarrow>
     (\<forall>(k, listed) \<in> set friends. \<forall>g \<in> set listed. g \<notin> set (isolated_guests friends))"

subsection \<open>An example mapping\<close>

text \<open>\<open>{'Alice': ['Bob'], 'Bob': ['Alice'], 'Cleo': []}\<close>: two entangled guests and an isolated one.\<close>

abbreviation example_friends :: friends where
  "example_friends \<equiv> [(''Alice'', [''Bob'']), (''Bob'', [''Alice'']), (''Cleo'', [])]"

section \<open>The loop combinator\<close>

lemma for_each_append:
  "for_each (xs @ ys) body s =
     (case for_each xs body s of Inl e \<Rightarrow> Inl e | Inr s' \<Rightarrow> for_each ys body s')"
  by (induction xs arbitrary: s) (auto split: sum.splits)

lemma for_each_pure:
  "for_each xs (\<lambda>x s. Inr (f x s)) s = Inr (fold f xs s)"
  by (induction xs arbitrary: s) auto

text \<open>
  The loop rule: an invariant that holds at the start and that every iteration
  re-establishes without raising holds at the end, and the loop does not raise.
\<close>

lemma for_each_invariant:
  assumes "P s"
    and "\<And>x s. x \<in> set xs \<Longrightarrow> P s \<Longrightarrow> \<exists>s'. body x s = Inr s' \<and> P s'"
  shows "\<exists>s'. for_each xs body s = Inr s' \<and> P s'"
  using assms
proof (induction xs arbitrary: s)
  case Nil
  then show ?case by simp
next
  case (Cons x xs)
  from Cons.prems obtain s1 where s1: "body x s = Inr s1" "P s1"
    by (meson list.set_intros(1))
  have "\<exists>s'. for_each xs body s1 = Inr s' \<and> P s'"
    by (rule Cons.IH [OF s1(2)]) (simp add: Cons.prems(2))
  with s1 show ?case by simp
qed

section \<open>find_dislikes: the set of dislike pairs\<close>

text \<open>The inner loop keeps the three facts that make up the invariant of the outer one.\<close>

lemma add_dislikes_invariant:
  assumes "distinct es" and "one_orientation es"
    and "\<forall>(a, b) \<in> set es. Q a b" and "\<forall>d \<in> set listed. Q person d"
  shows "distinct (fold (\<lambda>dislike dislikes.
                           if (dislike, person) \<notin> set dislikes
                           then set_add (person, dislike) dislikes
                           else dislikes) listed es)
       \<and> one_orientation (fold (\<lambda>dislike dislikes.
                           if (dislike, person) \<notin> set dislikes
                           then set_add (person, dislike) dislikes
                           else dislikes) listed es)
       \<and> (\<forall>(a, b) \<in> set (fold (\<lambda>dislike dislikes.
                           if (dislike, person) \<notin> set dislikes
                           then set_add (person, dislike) dislikes
                           else dislikes) listed es). Q a b)"
  using assms
proof (induction listed arbitrary: es)
  case Nil
  then show ?case by simp
next
  case (Cons d listed)
  let ?es' = "if (d, person) \<notin> set es then set_add (person, d) es else es"
  have 1: "distinct ?es'" using Cons.prems(1) by (simp add: set_add_def)
  have 2: "one_orientation ?es'" using Cons.prems(2)
    by (auto simp: set_add_def one_orientation_def)
  have 3: "\<forall>(a, b) \<in> set ?es'. Q a b" using Cons.prems(3,4)
    by (auto simp: set_add_def)
  have 4: "\<forall>d \<in> set listed. Q person d" using Cons.prems(4) by simp
  from Cons.IH [OF 1 2 3 4] show ?case by simp
qed

lemma dict_getitem_key:
  "k \<in> set (dict_keys friends) \<Longrightarrow> \<exists>listed. dict_getitem friends k = Inr listed"
  by (cases "map_of friends k") (auto simp: dict_getitem_def dict_keys_def map_of_eq_None_iff)

lemma dict_getitem_entry:
  "dict_getitem friends k = Inr listed \<Longrightarrow> (k, listed) \<in> set friends"
  by (auto simp: dict_getitem_def map_of_SomeD split: option.splits)

lemma dict_getitem_distinct:
  "distinct (dict_keys friends) \<Longrightarrow> (k, listed) \<in> set friends
     \<Longrightarrow> dict_getitem friends k = Inr listed"
  by (simp add: dict_getitem_def dict_keys_def)

lemma find_dislikes_invariant:
  "\<exists>es. find_dislikes friends = Inr es \<and> distinct es \<and> one_orientation es
        \<and> (\<forall>(a, b) \<in> set es. listed_by friends a b)"
  unfolding find_dislikes_def
proof (rule for_each_invariant [where P = "\<lambda>es. distinct es \<and> one_orientation es
        \<and> (\<forall>(a, b) \<in> set es. listed_by friends a b)"], goal_cases)
  case 1
  show ?case by (simp add: one_orientation_def)
next
  case (2 person es)
  from 2(1) obtain listed where l: "dict_getitem friends person = Inr listed"
    using dict_getitem_key by blast
  have q: "\<forall>d \<in> set listed. listed_by friends person d"
    using l 2(1) by (auto simp: listed_by_def)
  from 2(2) have "distinct es" "one_orientation es" "\<forall>(a, b) \<in> set es. listed_by friends a b"
    by auto
  from add_dislikes_invariant [OF this q] show ?case
    by (simp add: l)
qed

lemma find_dislikes_returns: "\<exists>es. find_dislikes friends = Inr es"
  using find_dislikes_invariant by blast

text \<open>
  What holds of the returned set for every input mapping \<open>G\<close>: the function raises no
  error; the set holds each tuple once and never both orientations of a pair of two
  different guests; every tuple consists of a key of \<open>G\<close> and a guest of its list, in
  this order; so both endpoints of every tuple are keys of \<open>G\<close> whenever every guest
  listed in \<open>G\<close> is itself a key of \<open>G\<close>.
\<close>

lemma find_dislikes_pairs:
  "\<exists>es. find_dislikes friends = Inr es \<and> distinct es
      \<and> (\<forall>a b. (a, b) \<in> set es \<longrightarrow> a \<noteq> b \<longrightarrow> (b, a) \<notin> set es)
      \<and> (\<forall>(a, b) \<in> set es. a \<in> set (dict_keys friends)
             \<and> (\<exists>listed. dict_getitem friends a = Inr listed \<and> b \<in> set listed))
      \<and> ((\<forall>(k, listed) \<in> set friends. set listed \<subseteq> set (dict_keys friends))
             \<longrightarrow> (\<forall>(a, b) \<in> set es.
                    a \<in> set (dict_keys friends) \<and> b \<in> set (dict_keys friends)))"
proof -
  from find_dislikes_invariant [of friends] obtain es where es:
    "find_dislikes friends = Inr es" "distinct es" "one_orientation es"
    "\<forall>(a, b) \<in> set es. listed_by friends a b" by blast
  have "\<forall>(a, b) \<in> set es. a \<in> set (dict_keys friends) \<and> b \<in> set (dict_keys friends)"
    if wf: "\<forall>(k, listed) \<in> set friends. set listed \<subseteq> set (dict_keys friends)"
  proof (clarify)
    fix a b assume "(a, b) \<in> set es"
    with es(4) have "listed_by friends a b" by blast
    then obtain listed where "a \<in> set (dict_keys friends)"
      "dict_getitem friends a = Inr listed" "b \<in> set listed"
      by (auto simp: listed_by_def)
    moreover from this have "(a, listed) \<in> set friends" by (simp add: dict_getitem_entry)
    ultimately show "a \<in> set (dict_keys friends) \<and> b \<in> set (dict_keys friends)"
      using wf by blast
  qed
  with es show ?thesis
    unfolding one_orientation_def listed_by_def by blast
qed

text \<open>
  Claim C3 says that for every input mapping \<open>G\<close> the set returned by \<open>find_dislikes(G)\<close>
  holds each unordered pair of guests at most once, that every tuple in it is sorted in
  alphabetical order, and that both endpoints of every edge are keys of \<open>G\<close>. The
  docstring of the function says the same of the order ("Each edge should list node
  connections in alphabetical order"). This does not hold of the code. On
  \<open>{'Bob': ['Alice'], 'Alice': ['Bob']}\<close>, where every listed guest is a key, the only
  tuple returned is \<open>('Bob', 'Alice')\<close>, which is not in alphabetical order: the function
  never compares the two names, and a tuple starts with the key that the dictionary
  yields first.
\<close>

theorem find_dislikes_unsorted_tuple:
  "find_dislikes [(''Bob'', [''Alice'']), (''Alice'', [''Bob''])] = Inr [(''Bob'', ''Alice'')]
   \<and> \<not> (''Bob'' \<le> ''Alice'')
   \<and> set [''Alice'', ''Bob''] \<subseteq> set (dict_keys [(''Bob'', [''Alice'']), (''Alice'', [''Bob''])])"
  by (simp add: find_dislikes_def dict_keys_def dict_getitem_def set_add_def)

text \<open>
  A guest that is listed without being a key is passed through: on \<open>{'Alice': ['Bob']}\<close>
  the tuple \<open>('Alice', 'Bob')\<close> is returned although \<open>'Bob'\<close> is not a key.
\<close>

lemma find_dislikes_unlisted_key:
  "find_dislikes [(''Alice'', [''Bob''])] = Inr [(''Alice'', ''Bob'')]
   \<and> ''Bob'' \<notin> set (dict_keys [(''Alice'', [''Bob''])])"
  by (simp add: find_dislikes_def dict_keys_def dict_getitem_def set_add_def)

section \<open>generate_all_subsets: the subsets in counting order\<close>

lemma list_getitem_nat:
  "k < length xs \<Longrightarrow> list_getitem xs (int (length xs) - 1 - int k) = Inr (xs ! (length xs - 1 - k))"
proof -
  assume k: "k < length xs"
  then have "nat (int (length xs) - 1 - int k) = length xs - 1 - k" by simp
  with k show ?thesis by (simp add: list_getitem_def)
qed

lemma drop_last_step:
  "k < length xs \<Longrightarrow> drop (length xs - Suc k) xs = xs ! (length xs - 1 - k) # drop (length xs - k) xs"
  by (metis Cons_nth_drop_Suc Suc_diff_Suc diff_Suc_eq_diff_pred diff_less zero_less_Suc less_nat_zero_code not_gr_zero)

lemma subset_of_number_steps:
  "k \<le> length friend_list \<Longrightarrow>
   for_each [0..<k]
       (\<lambda>j (num, new_subset).
          if num mod 2 = 1
          then (case list_getitem friend_list (int (length friend_list) - 1 - int j) of
                  Inl e \<Rightarrow> Inl e
                | Inr g \<Rightarrow> Inr (num div 2, [g] @ new_subset))
          else Inr (num div 2, new_subset))
       (i, [])
   = Inr (i div 2 ^ k, chosen_by i (drop (length friend_list - k) friend_list))"
proof (induction k)
  case 0
  then show ?case by simp
next
  case (Suc k)
  then have k: "k < length friend_list" by simp
  have d: "i div 2 ^ k div 2 = i div 2 ^ Suc k"
    by (metis div_mult2_eq power_Suc2)
  show ?case using Suc.IH k
    by (simp add: for_each_append list_getitem_nat drop_last_step d del: power_Suc)
qed

lemma subset_of_number_eq:
  "subset_of_number friend_list (length friend_list) i
     = Inr (i div 2 ^ length friend_list, chosen_by i friend_list)"
  unfolding subset_of_number_def using subset_of_number_steps [of "length friend_list" friend_list i]
  by simp

lemma fold_snoc_map: "fold (\<lambda>x acc. acc @ [f x]) xs acc = acc @ map f xs"
  by (induction xs arbitrary: acc) auto

lemma generate_all_subsets_eq:
  "generate_all_subsets friends = Inr (subsets_in_counting_order (dict_keys friends))"
proof -
  have n: "length friends = length (dict_keys friends)" by (simp add: dict_keys_def)
  show ?thesis
    unfolding generate_all_subsets_def Let_def n subset_of_number_eq subsets_in_counting_order_def
    by (simp add: for_each_pure fold_snoc_map)
qed

lemma div_high_bits:
  fixes i :: nat
  assumes "l < m"
  shows "(i + 2 ^ m * c) div 2 ^ l mod 2 = i div 2 ^ l mod 2"
proof -
  from assms obtain d where m: "m = l + Suc d"
    by (metis less_iff_Suc_add add_Suc_right)
  have e: "(2::nat) ^ m * c = 2 ^ l * (2 * (2 ^ d * c))"
    unfolding m power_add by simp
  have "(i + 2 ^ l * (2 * (2 ^ d * c))) div 2 ^ l = 2 * (2 ^ d * c) + i div 2 ^ l"
    by (rule div_mult_self2) simp
  then have "(i + 2 ^ m * c) div 2 ^ l mod 2 = (2 * (2 ^ d * c) + i div 2 ^ l) mod 2"
    unfolding e by simp
  also have "\<dots> = i div 2 ^ l mod 2"
    by (rule mod_mult_self4)
  finally show ?thesis .
qed

lemma chosen_by_high_bits:
  "length xs \<le> m \<Longrightarrow> chosen_by (i + 2 ^ m * c) xs = chosen_by i xs"
proof (induction xs)
  case Nil
  then show ?case by simp
next
  case (Cons x xs)
  from Cons.prems have l: "length xs < m" by simp
  from Cons.prems have "length xs \<le> m" by simp
  then have ih: "chosen_by (i + 2 ^ m * c) xs = chosen_by i xs" by (rule Cons.IH)
  show ?case
    unfolding chosen_by.simps div_high_bits [OF l] ih ..
qed

lemma subsets_in_counting_order_Nil: "subsets_in_counting_order [] = [[]]"
  by (simp add: subsets_in_counting_order_def)

lemma subsets_in_counting_order_Cons:
  "subsets_in_counting_order (x # xs)
     = subsets_in_counting_order xs @ map ((#) x) (subsets_in_counting_order xs)"
proof -
  let ?m = "2 ^ length xs :: nat"
  have split: "[0..<2 ^ length (x # xs)] = [0..<?m] @ map (\<lambda>i. i + ?m) [0..<?m]"
    by (simp add: map_add_upt upt_add_eq_append [of 0 ?m ?m, simplified] mult_2)
  have low: "chosen_by i (x # xs) = chosen_by i xs" if "i < ?m" for i
    using that by simp
  have high: "chosen_by (i + ?m) (x # xs) = x # chosen_by i xs" if "i < ?m" for i
    using that chosen_by_high_bits [of xs "length xs" i 1] by (simp add: div_add_self2)
  show ?thesis
    unfolding subsets_in_counting_order_def split
    by (simp add: low high del: upt_Suc chosen_by.simps)
qed

lemma subsets_in_counting_order_subseqs:
  "subsets_in_counting_order xs = rev (subseqs xs)"
  by (induction xs)
     (simp_all add: subsets_in_counting_order_Nil subsets_in_counting_order_Cons Let_def rev_map)

lemma chosen_by_zero: "chosen_by 0 xs = []"
  by (induction xs) auto

lemma subsets_in_counting_order_first: "subsets_in_counting_order xs ! 0 = []"
  by (simp add: subsets_in_counting_order_def chosen_by_zero)

lemma subsets_in_counting_order_nonempty: "subsets_in_counting_order xs \<noteq> []"
  by (simp add: subsets_in_counting_order_def)

lemma subsets_in_counting_order_last: "last (subsets_in_counting_order xs) = xs"
  by (induction xs)
     (simp_all add: subsets_in_counting_order_Nil subsets_in_counting_order_Cons
        subsets_in_counting_order_nonempty last_map)

lemma chosen_by_positions:
  "chosen_by i xs
     = map ((!) xs) (filter (\<lambda>k. odd (i div 2 ^ (length xs - 1 - k))) [0..<length xs])"
proof (induction xs)
  case Nil
  then show ?case by simp
next
  case (Cons x xs)
  have up: "[0..<length (x # xs)] = 0 # map Suc [0..<length xs]"
    by (simp add: upt_conv_Cons map_Suc_upt del: upt_Suc)
  show ?case
    unfolding up by (simp add: Cons.IH filter_map comp_def odd_iff_mod_2_eq_one del: upt_Suc)
qed

lemma in_subsets_in_counting_order:
  "s \<in> set (subsets_in_counting_order xs) \<longleftrightarrow> subseq s xs"
  by (simp add: subsets_in_counting_order_subseqs)

text \<open>
  Claim C4. For every input mapping with \<open>N\<close> keys, \<open>generate_all_subsets\<close> raises no error
  and returns \<open>2^N\<close> lists, pairwise distinct as sets, whose sets are exactly the subsets
  of the key set. The list at position \<open>0\<close> is the empty subset and the list at position
  \<open>2^N - 1\<close> holds all \<open>N\<close> guests. The list at position \<open>i\<close> holds, in the order of the
  keys, the key at index \<open>k\<close> exactly when bit \<open>N - 1 - k\<close> of \<open>i\<close> is set: the sequence
  counts from \<open>0\<close> to \<open>2^N - 1\<close>, each bit position standing for one fixed guest.
\<close>

theorem generate_all_subsets_power_set:
  assumes "distinct (dict_keys friends)"
  shows "\<exists>all_subsets. generate_all_subsets friends = Inr all_subsets
     \<and> length all_subsets = 2 ^ length (dict_keys friends)
     \<and> distinct (map set all_subsets)
     \<and> set ` set all_subsets = Pow (set (dict_keys friends))
     \<and> all_subsets ! 0 = []
     \<and> all_subsets ! (2 ^ length (dict_keys friends) - 1) = dict_keys friends
     \<and> (\<forall>i < 2 ^ length (dict_keys friends).
           all_subsets ! i
             = map ((!) (dict_keys friends))
                 (filter (\<lambda>k. odd (i div 2 ^ (length (dict_keys friends) - 1 - k)))
                    [0..<length (dict_keys friends)]))"
proof -
  let ?keys = "dict_keys friends"
  let ?all = "subsets_in_counting_order ?keys"
  have len: "length ?all = 2 ^ length ?keys"
    by (simp add: subsets_in_counting_order_def)
  have "distinct (map set (subseqs ?keys))"
    using assms by (rule distinct_set_subseqs)
  then have dist: "distinct (map set ?all)"
    by (simp add: subsets_in_counting_order_subseqs rev_map [symmetric])
  have pow: "set ` set ?all = Pow (set ?keys)"
    by (simp add: subsets_in_counting_order_subseqs subseqs_powset)
  have full: "?all ! (2 ^ length ?keys - 1) = ?keys"
    using subsets_in_counting_order_last [of ?keys] subsets_in_counting_order_nonempty [of ?keys]
    by (simp add: last_conv_nth len)
  have bits: "\<forall>i < 2 ^ length ?keys. ?all ! i
       = map ((!) ?keys) (filter (\<lambda>k. odd (i div 2 ^ (length ?keys - 1 - k))) [0..<length ?keys])"
    by (simp add: subsets_in_counting_order_def chosen_by_positions del: upt_Suc)
  show ?thesis
    using len dist pow full bits
    by (simp add: generate_all_subsets_eq subsets_in_counting_order_first)
qed

text \<open>The theorem at a mapping with two keys.\<close>

theorem generate_all_subsets_power_set_witness:
  "distinct (dict_keys [(''Alice'', [''Bob'']), (''Bob'', [''Alice''])])
   \<and> generate_all_subsets [(''Alice'', [''Bob'']), (''Bob'', [''Alice''])]
       = Inr [[], [''Bob''], [''Alice''], [''Alice'', ''Bob'']]
   \<and> length [[], [''Bob''], [''Alice''], [''Alice'', ''Bob'']]
       = 2 ^ length (dict_keys [(''Alice'', [''Bob'']), (''Bob'', [''Alice''])])
   \<and> distinct (map set [[], [''Bob''], [''Alice''], [''Alice'', ''Bob'']])"
proof -
  have d: "distinct (dict_keys [(''Alice'', [''Bob'']), (''Bob'', [''Alice''])])"
    by (simp add: dict_keys_def)
  have e: "generate_all_subsets [(''Alice'', [''Bob'']), (''Bob'', [''Alice''])]
       = Inr [[], [''Bob''], [''Alice''], [''Alice'', ''Bob'']]"
    by code_simp
  from generate_all_subsets_power_set [OF d] obtain all_subsets where
    "generate_all_subsets [(''Alice'', [''Bob'']), (''Bob'', [''Alice''])] = Inr all_subsets"
    "length all_subsets = 2 ^ length (dict_keys [(''Alice'', [''Bob'']), (''Bob'', [''Alice''])])"
    "distinct (map set all_subsets)"
    by blast
  with e have
    "length [[], [''Bob''], [''Alice''], [''Alice'', ''Bob'']]
       = 2 ^ length (dict_keys [(''Alice'', [''Bob'']), (''Bob'', [''Alice''])])"
    "distinct (map set [[], [''Bob''], [''Alice''], [''Alice'', ''Bob'']])"
    by auto
  with d e show ?thesis by blast
qed

section \<open>filter_bad_invites: removing the subsets with a dislike pair\<close>

text \<open>
  The first loop appends a subset to \<open>bad_invites\<close> once for every pair of the set that
  it contains.
\<close>

lemma bad_pairs_fold:
  "fold (\<lambda>pair bad_invites.
           if fst pair \<in> set s \<and> snd pair \<in> set s
           then bad_invites @ [s] else bad_invites) ps bad
   = bad @ replicate (length (filter (\<lambda>pair. fst pair \<in> set s \<and> snd pair \<in> set s) ps)) s"
  by (induction ps arbitrary: bad) (auto simp: replicate_append_same)

lemma fold_append_concat: "fold (\<lambda>x acc. acc @ g x) xs acc = acc @ concat (map g xs)"
  by (induction xs arbitrary: acc) auto

lemma times_bad_pos: "0 < times_bad ps s \<longleftrightarrow> has_dislike_pair ps s"
  by (auto simp: times_bad_def has_dislike_pair_def filter_empty_conv)

lemma has_dislike_pair_cong: "set ps = set es \<Longrightarrow> has_dislike_pair ps s = has_dislike_pair es s"
  by (simp add: has_dislike_pair_def)

lemma collect_bad_invites_eq:
  assumes "find_dislikes friends = Inr es"
  shows "collect_bad_invites iter subsets friends
           = Inr (concat (map (\<lambda>s. replicate (times_bad (iter es) s) s) subsets))"
  unfolding collect_bad_invites_def assms
  by (simp add: for_each_pure bad_pairs_fold fold_append_concat times_bad_def)

text \<open>
  The second loop removes, for each entry of \<open>bad_invites\<close>, the first equal element of
  the list. A subset with a pair is entered at least as often as it occurs in the list,
  so every occurrence of it goes; a subset without a pair is never entered and stays.
\<close>

lemma filter_remove1_dropped: "\<not> Q b \<Longrightarrow> filter Q (remove1 b xs) = filter Q xs"
  by (induction xs) auto

lemma count_list_remove1:
  "count_list (remove1 b xs) v = (if v = b then count_list xs v - 1 else count_list xs v)"
  by (induction xs) auto

lemma count_list_zero_iff: "count_list xs v = 0 \<longleftrightarrow> v \<notin> set xs"
  by (induction xs) auto

lemma fold_remove1_filter:
  assumes "\<forall>b \<in> set B. P b" and "\<forall>v. P v \<longrightarrow> count_list xs v \<le> count_list B v"
  shows "fold remove1 B xs = filter (\<lambda>x. \<not> P x) xs"
  using assms
proof (induction B arbitrary: xs)
  case Nil
  then have "\<forall>x \<in> set xs. \<not> P x"
    by (auto simp: count_list_zero_iff)
  then show ?case by simp
next
  case (Cons b B)
  have pb: "P b" using Cons.prems(1) by simp
  have 1: "\<forall>b \<in> set B. P b" using Cons.prems(1) by simp
  have 2: "\<forall>v. P v \<longrightarrow> count_list (remove1 b xs) v \<le> count_list B v"
  proof (intro allI impI)
    fix v assume "P v"
    with Cons.prems(2) have "count_list xs v \<le> count_list (b # B) v" by blast
    then show "count_list (remove1 b xs) v \<le> count_list B v"
      by (auto simp: count_list_remove1 split: if_splits)
  qed
  have "fold remove1 (b # B) xs = fold remove1 B (remove1 b xs)" by simp
  also have "\<dots> = filter (\<lambda>x. \<not> P x) (remove1 b xs)" by (rule Cons.IH [OF 1 2])
  also have "\<dots> = filter (\<lambda>x. \<not> P x) xs" using pb by (simp add: filter_remove1_dropped)
  finally show ?case .
qed

lemma count_list_replicate: "count_list (replicate n s) v = (if s = v then n else 0)"
  by (induction n) auto

lemma count_list_bad:
  "0 < k v \<Longrightarrow> count_list xs v \<le> count_list (concat (map (\<lambda>s. replicate (k s) s) xs)) v"
  by (induction xs) (auto simp: count_list_replicate)

lemma set_bad: "b \<in> set (concat (map (\<lambda>s. replicate (k s) s) xs)) \<Longrightarrow> 0 < k b"
  by (induction xs) (auto split: if_splits)

lemma remove_bad_eq:
  "fold remove1 (concat (map (\<lambda>s. replicate (times_bad ps s) s) xs)) xs
     = filter (\<lambda>s. \<not> has_dislike_pair ps s) xs"
proof (rule fold_remove1_filter)
  show "\<forall>b \<in> set (concat (map (\<lambda>s. replicate (times_bad ps s) s) xs)). has_dislike_pair ps b"
    using set_bad [where k = "times_bad ps"] by (auto simp: times_bad_pos)
  show "\<forall>v. has_dislike_pair ps v \<longrightarrow>
          count_list xs v \<le> count_list (concat (map (\<lambda>s. replicate (times_bad ps s) s) xs)) v"
    using count_list_bad [where k = "times_bad ps"] by (simp add: times_bad_pos)
qed

text \<open>The same loop on the store: only the list behind \<open>good_invites\<close> changes.\<close>

lemma remove_loop_eq:
  "for_each bad
     (\<lambda>subset h.
        if subset \<in> set (lists h r)
        then (case list_remove subset (lists h r) of
                Inl e \<Rightarrow> Inl e
              | Inr removed \<Rightarrow> Inr (h\<lparr>lists := (lists h)(r := removed)\<rparr>))
        else Inr h)
     h
   = Inr (h\<lparr>lists := (lists h)(r := fold remove1 bad (lists h r))\<rparr>)"
proof (induction bad arbitrary: h)
  case Nil
  show ?case by simp
next
  case (Cons b bad)
  show ?case
  proof (cases "b \<in> set (lists h r)")
    case True
    have "(\<lambda>a. if a = r then fold remove1 bad (remove1 b (lists h r))
               else if a = r then remove1 b (lists h r) else lists h a)
        = (\<lambda>a. if a = r then fold remove1 bad (remove1 b (lists h r)) else lists h a)"
      by (rule ext) simp
    with True show ?thesis by (simp add: list_remove_def Cons.IH)
  next
    case False
    then show ?thesis by (simp add: Cons.IH remove1_idem)
  qed
qed

lemma filter_bad_invites_heap_eq:
  assumes "find_dislikes (dicts h friends) = Inr es" and "set (iter es) = set es"
  shows "filter_bad_invites_heap iter all_subsets friends h
     = Inr (all_subsets,
            h\<lparr>lists := (lists h)(all_subsets :=
                 filter (\<lambda>s. \<not> has_dislike_pair es s) (lists h all_subsets))\<rparr>)"
  unfolding filter_bad_invites_heap_def Let_def
  by (simp add: collect_bad_invites_eq [OF assms(1)] remove_loop_eq remove_bad_eq
      has_dislike_pair_cong [OF assms(2)])

lemma filter_bad_invites_eq:
  assumes "find_dislikes friends = Inr es" and "set (iter es) = set es"
  shows "filter_bad_invites iter all_subsets friends
     = Inr (filter (\<lambda>s. \<not> has_dislike_pair es s) all_subsets)"
  unfolding filter_bad_invites_def
  by (simp add: filter_bad_invites_heap_eq [where es = es] assms)

text \<open>
  Every dislike that the mapping lists is in the set of pairs in one of its two
  orientations, so a subset has a pair of the set exactly when it holds a guest and a
  guest that this guest lists.
\<close>

lemma add_dislikes_covers:
  "set es \<subseteq> set (fold (\<lambda>dislike dislikes.
                           if (dislike, person) \<notin> set dislikes
                           then set_add (person, dislike) dislikes
                           else dislikes) listed es)
   \<and> (\<forall>d \<in> set listed.
         (person, d) \<in> set (fold (\<lambda>dislike dislikes.
                           if (dislike, person) \<notin> set dislikes
                           then set_add (person, dislike) dislikes
                           else dislikes) listed es)
       \<or> (d, person) \<in> set (fold (\<lambda>dislike dislikes.
                           if (dislike, person) \<notin> set dislikes
                           then set_add (person, dislike) dislikes
                           else dislikes) listed es))"
proof (induction listed arbitrary: es)
  case Nil
  show ?case by simp
next
  case (Cons d listed)
  let ?es' = "if (d, person) \<notin> set es then set_add (person, d) es else es"
  have sub: "set es \<subseteq> set ?es'" by (auto simp: set_add_def)
  have here: "(person, d) \<in> set ?es' \<or> (d, person) \<in> set ?es'" by (auto simp: set_add_def)
  from Cons.IH [of ?es'] sub here show ?case
    by (simp only: fold_simps comp_apply set_simps ball_simps) blast
qed

lemma find_dislikes_loop_covers:
  "\<exists>es'. for_each ks
       (\<lambda>person dislikes.
          case dict_getitem friends person of
            Inl e \<Rightarrow> Inl e
          | Inr listed \<Rightarrow>
              Inr (fold (\<lambda>dislike dislikes.
                           if (dislike, person) \<notin> set dislikes
                           then set_add (person, dislike) dislikes
                           else dislikes)
                        listed dislikes)) es = Inr es'
     \<and> set es \<subseteq> set es'
     \<and> (\<forall>a b. a \<in> set ks \<longrightarrow> listed_by friends a b \<longrightarrow> (a, b) \<in> set es' \<or> (b, a) \<in> set es')"
  if "set ks \<subseteq> set (dict_keys friends)"
  using that
proof (induction ks arbitrary: es)
  case Nil
  show ?case by simp
next
  case (Cons k ks)
  from Cons.prems have k: "k \<in> set (dict_keys friends)" and ks: "set ks \<subseteq> set (dict_keys friends)"
    by simp_all
  from k obtain listed where l: "dict_getitem friends k = Inr listed"
    using dict_getitem_key by blast
  let ?es1 = "fold (\<lambda>dislike dislikes.
                           if (dislike, k) \<notin> set dislikes
                           then set_add (k, dislike) dislikes
                           else dislikes) listed es"
  from add_dislikes_covers [of es k listed]
  have c1: "set es \<subseteq> set ?es1"
    and c2: "\<forall>d \<in> set listed. (k, d) \<in> set ?es1 \<or> (d, k) \<in> set ?es1" by blast+
  from Cons.IH [OF ks, of ?es1] obtain es' where es':
    "for_each ks
       (\<lambda>person dislikes.
          case dict_getitem friends person of
            Inl e \<Rightarrow> Inl e
          | Inr listed \<Rightarrow>
              Inr (fold (\<lambda>dislike dislikes.
                           if (dislike, person) \<notin> set dislikes
                           then set_add (person, dislike) dislikes
                           else dislikes)
                        listed dislikes)) ?es1 = Inr es'"
    "set ?es1 \<subseteq> set es'"
    "\<forall>a b. a \<in> set ks \<longrightarrow> listed_by friends a b \<longrightarrow> (a, b) \<in> set es' \<or> (b, a) \<in> set es'"
    by blast
  have "(k, b) \<in> set es' \<or> (b, k) \<in> set es'" if "listed_by friends k b" for b
  proof -
    from that l have "b \<in> set listed" by (auto simp: listed_by_def)
    with c2 es'(2) show ?thesis by blast
  qed
  with es' c1 show ?case
    by (simp add: l)
qed

lemma find_dislikes_covers:
  assumes "find_dislikes friends = Inr es" and "listed_by friends a b"
  shows "(a, b) \<in> set es \<or> (b, a) \<in> set es"
proof -
  from find_dislikes_loop_covers [of "dict_keys friends" friends "[]"] assms(1)
  have "\<forall>a b. a \<in> set (dict_keys friends) \<longrightarrow> listed_by friends a b
           \<longrightarrow> (a, b) \<in> set es \<or> (b, a) \<in> set es"
    unfolding find_dislikes_def by auto
  with assms(2) show ?thesis by (auto simp: listed_by_def)
qed

lemma find_dislikes_listed:
  assumes "find_dislikes friends = Inr es" and "(a, b) \<in> set es"
  shows "listed_by friends a b"
  using find_dislikes_invariant [of friends] assms by auto

lemma has_dislike_pair_iff:
  assumes "find_dislikes friends = Inr es"
  shows "has_dislike_pair es s \<longleftrightarrow> (\<exists>a \<in> set s. \<exists>b \<in> set s. listed_by friends a b)"
proof
  assume "has_dislike_pair es s"
  then obtain a b where "(a, b) \<in> set es" "a \<in> set s" "b \<in> set s"
    by (auto simp: has_dislike_pair_def)
  with find_dislikes_listed [OF assms] show "\<exists>a \<in> set s. \<exists>b \<in> set s. listed_by friends a b"
    by blast
next
  assume "\<exists>a \<in> set s. \<exists>b \<in> set s. listed_by friends a b"
  then obtain a b where ab: "a \<in> set s" "b \<in> set s" "listed_by friends a b" by blast
  from find_dislikes_covers [OF assms ab(3)] ab(1,2) show "has_dislike_pair es s"
    unfolding has_dislike_pair_def by force
qed

text \<open>
  Claim C5, as amended. For every input subset sequence and dislike mapping,
  \<open>filter_bad_invites\<close> raises no error and returns exactly those input subsets that
  contain no pair of \<open>find_dislikes(friends)\<close> (both components present), in the relative
  order of the input; these are the subsets that hold no guest together with a guest it
  lists. The empty subset is always kept. A subset of one guest is removed exactly when
  that guest lists itself as a dislike; so every subset of size 0 or 1 is kept when no
  guest of the mapping lists itself.
\<close>

theorem filter_bad_invites_keeps_valid:
  assumes "visits_all iter"
  shows "\<exists>es. find_dislikes friends = Inr es
     \<and> filter_bad_invites iter all_subsets friends
           = Inr (filter (\<lambda>s. \<not> has_dislike_pair es s) all_subsets)
     \<and> (\<forall>s. has_dislike_pair es s \<longleftrightarrow> (\<exists>a \<in> set s. \<exists>b \<in> set s. listed_by friends a b))
     \<and> \<not> has_dislike_pair es []
     \<and> (\<forall>g. has_dislike_pair es [g] \<longleftrightarrow> listed_by friends g g)
     \<and> ((\<forall>g. \<not> listed_by friends g g)
           \<longrightarrow> (\<forall>s. length s \<le> 1 \<longrightarrow> \<not> has_dislike_pair es s))"
proof -
  obtain es where es: "find_dislikes friends = Inr es"
    using find_dislikes_returns by blast
  from assms have it: "set (iter es) = set es" by (simp add: visits_all_def)
  note iff = has_dislike_pair_iff [OF es]
  have small: "\<not> has_dislike_pair es s" if "\<forall>g. \<not> listed_by friends g g" "length s \<le> 1" for s
  proof (cases s)
    case Nil
    then show ?thesis by (simp add: iff)
  next
    case (Cons g t)
    with that(2) have "s = [g]" by simp
    with that(1) show ?thesis by (simp add: iff)
  qed
  show ?thesis
    using es filter_bad_invites_eq [where iter = iter, OF es it] iff small by (intro exI [of _ es]) simp
qed

text \<open>The theorem at the example of the function's docstring.\<close>

theorem filter_bad_invites_keeps_valid_witness:
  "visits_all (\<lambda>es. es)
   \<and> find_dislikes [(''Alice'', [''Bob'']), (''Bob'', [''Alice'']), (''Eve'', [])]
       = Inr [(''Alice'', ''Bob'')]
   \<and> filter_bad_invites (\<lambda>es. es)
        [[], [''Eve''], [''Bob''], [''Bob'', ''Eve''], [''Alice''], [''Alice'', ''Eve''],
         [''Alice'', ''Bob''], [''Alice'', ''Bob'', ''Eve'']]
        [(''Alice'', [''Bob'']), (''Bob'', [''Alice'']), (''Eve'', [])]
       = Inr [[], [''Eve''], [''Bob''], [''Bob'', ''Eve''], [''Alice''], [''Alice'', ''Eve'']]"
proof -
  have v: "visits_all (\<lambda>es. es)" by (simp add: visits_all_def)
  have e: "find_dislikes [(''Alice'', [''Bob'']), (''Bob'', [''Alice'']), (''Eve'', [])]
       = Inr [(''Alice'', ''Bob'')]"
    by (simp add: find_dislikes_def dict_keys_def dict_getitem_def set_add_def)
  from filter_bad_invites_keeps_valid [OF v,
      of "[(''Alice'', [''Bob'']), (''Bob'', [''Alice'']), (''Eve'', [])]"
         "[[], [''Eve''], [''Bob''], [''Bob'', ''Eve''], [''Alice''], [''Alice'', ''Eve''],
         [''Alice'', ''Bob''], [''Alice'', ''Bob'', ''Eve'']]"]
  have "filter_bad_invites (\<lambda>es. es)
        [[], [''Eve''], [''Bob''], [''Bob'', ''Eve''], [''Alice''], [''Alice'', ''Eve''],
         [''Alice'', ''Bob''], [''Alice'', ''Bob'', ''Eve'']]
        [(''Alice'', [''Bob'']), (''Bob'', [''Alice'']), (''Eve'', [])]
       = Inr (filter (\<lambda>s. \<not> has_dislike_pair [(''Alice'', ''Bob'')] s)
        [[], [''Eve''], [''Bob''], [''Bob'', ''Eve''], [''Alice''], [''Alice'', ''Eve''],
         [''Alice'', ''Bob''], [''Alice'', ''Bob'', ''Eve'']])"
    unfolding e by auto
  then show ?thesis using v e by (simp add: has_dislike_pair_def)
qed

text \<open>
  The claim as the specification states it fails: with \<open>{'Alice': ['Alice']}\<close> the set of
  pairs is \<open>{('Alice', 'Alice')}\<close> and the subset \<open>['Alice']\<close>, of size 1, is removed.
\<close>

theorem filter_bad_invites_counterexample:
  "filter_bad_invites (\<lambda>es. es) [[''Alice'']] [(''Alice'', [''Alice''])] = Inr []
   \<and> length [''Alice''] = 1"
  by (simp add: filter_bad_invites_def filter_bad_invites_heap_def collect_bad_invites_def
      find_dislikes_def dict_keys_def dict_getitem_def set_add_def list_remove_def)




section \<open>filter_no_dislikes and the two selection functions\<close>

subsection \<open>filter_no_dislikes splits the entries by the emptiness of their lists\<close>

lemma dict_setitem_new:
  "k \<notin> fst ` set d \<Longrightarrow> dict_setitem d k v = d @ [(k, v)]"
  by (induction d) auto

lemma filter_no_dislikes_loop:
  assumes "distinct (dict_keys friends)"
  shows "set ps \<subseteq> set friends \<Longrightarrow> distinct (map fst ps) \<Longrightarrow> fst ` set ps \<inter> fst ` set new = {} \<Longrightarrow>
     for_each (map fst ps)
       (\<lambda>item (no_dislikes, new_friends).
          case dict_getitem friends item of
            Inl e \<Rightarrow> Inl e
          | Inr listed \<Rightarrow>
              if listed = []
              then Inr (no_dislikes @ [item], new_friends)
              else Inr (no_dislikes, dict_setitem new_friends item listed))
       (no, new)
     = Inr (no @ map fst (filter (\<lambda>(k, listed). listed = []) ps),
            new @ filter (\<lambda>(k, listed). listed \<noteq> []) ps)"
proof (induction ps arbitrary: no new)
  case Nil
  show ?case by simp
next
  case (Cons p ps)
  obtain k listed where p: "p = (k, listed)" by (cases p)
  from Cons.prems(1) p have "(k, listed) \<in> set friends" by simp
  then have g: "dict_getitem friends k = Inr listed"
    using assms by (rule dict_getitem_distinct [rotated])
  from Cons.prems have 1: "set ps \<subseteq> set friends" and 2: "distinct (map fst ps)" by simp_all
  from Cons.prems(2,3) p have knew: "k \<notin> fst ` set new" and kps: "k \<notin> fst ` set ps" by auto
  show ?case
  proof (cases "listed = []")
    case True
    from Cons.prems(3) have 3: "fst ` set ps \<inter> fst ` set new = {}" by auto
    show ?thesis using True Cons.IH [OF 1 2 3] by (simp add: p g)
  next
    case False
    from Cons.prems(3) kps have 3: "fst ` set ps \<inter> fst ` set (new @ [(k, listed)]) = {}" by auto
    show ?thesis using False Cons.IH [OF 1 2 3] by (simp add: p g dict_setitem_new [OF knew])
  qed
qed

lemma filter_no_dislikes_eq:
  assumes "distinct (dict_keys friends)"
  shows "filter_no_dislikes friends
     = Inr (map fst (filter (\<lambda>(k, listed). listed = []) friends),
            filter (\<lambda>(k, listed). listed \<noteq> []) friends)"
  using filter_no_dislikes_loop [OF assms, of friends "[]" "[]"] assms
  by (simp add: filter_no_dislikes_def dict_keys_def)

subsection \<open>The selection loop\<close>

lemma longest_invite_snoc:
  "longest_invite (xs @ [x])
     = (if length x > length (longest_invite xs) then x else longest_invite xs)"
  by (simp add: longest_invite_def)

lemma longest_invite_upper: "x \<in> set xs \<Longrightarrow> length x \<le> length (longest_invite xs)"
proof (induction xs rule: rev_induct)
  case Nil
  then show ?case by simp
next
  case (snoc y ys)
  then show ?case by (auto simp: longest_invite_snoc)
qed

lemma longest_invite_first:
  "longest_invite xs = [] \<or>
   (\<exists>i < length xs. xs ! i = longest_invite xs
        \<and> (\<forall>j < i. length (xs ! j) < length (longest_invite xs)))"
proof (induction xs rule: rev_induct)
  case Nil
  then show ?case by (simp add: longest_invite_def)
next
  case (snoc x xs)
  show ?case
  proof (cases "length x > length (longest_invite xs)")
    case True
    have "length ((xs @ [x]) ! j) < length x" if "j < length xs" for j
    proof -
      from that have "length (xs ! j) \<le> length (longest_invite xs)"
        by (simp add: longest_invite_upper)
      with True that show ?thesis by (simp add: nth_append)
    qed
    then show ?thesis using True
      by (auto simp: longest_invite_snoc intro!: exI [of _ "length xs"])
  next
    case False
    from snoc.IH show ?thesis
    proof
      assume "longest_invite xs = []"
      with False show ?thesis by (simp add: longest_invite_snoc)
    next
      assume "\<exists>i < length xs. xs ! i = longest_invite xs
        \<and> (\<forall>j < i. length (xs ! j) < length (longest_invite xs))"
      then obtain i where i: "i < length xs" "xs ! i = longest_invite xs"
        "\<forall>j < i. length (xs ! j) < length (longest_invite xs)" by blast
      have "i < length (xs @ [x]) \<and> (xs @ [x]) ! i = longest_invite xs
        \<and> (\<forall>j < i. length ((xs @ [x]) ! j) < length (longest_invite xs))"
        using i by (auto simp: nth_append)
      with False show ?thesis by (auto simp: longest_invite_snoc)
    qed
  qed
qed

lemma longest_invite_first_longest:
  assumes "xs \<noteq> []"
  shows "first_longest (longest_invite xs) xs"
proof -
  have up: "\<forall>j < length xs. length (xs ! j) \<le> length (longest_invite xs)"
    using longest_invite_upper by auto
  from longest_invite_first [of xs] show ?thesis
  proof
    assume e: "longest_invite xs = []"
    with up assms have "xs ! 0 = []" by (cases xs) auto
    with e up assms show ?thesis
      unfolding first_longest_def by (intro exI [of _ 0]) simp
  next
    assume "\<exists>i < length xs. xs ! i = longest_invite xs
        \<and> (\<forall>j < i. length (xs ! j) < length (longest_invite xs))"
    with up show ?thesis unfolding first_longest_def by blast
  qed
qed

subsection \<open>The two pipelines\<close>

lemma valid_subsets_nonempty: "valid_subsets es ks \<noteq> []"
proof -
  obtain rest where "subsets_in_counting_order ks = [] # rest"
    using subsets_in_counting_order_first [of ks] subsets_in_counting_order_nonempty [of ks]
    by (cases "subsets_in_counting_order ks") auto
  then show ?thesis by (simp add: valid_subsets_def has_dislike_pair_def)
qed

lemma in_valid_subsets:
  "s \<in> set (valid_subsets es ks) \<longleftrightarrow> subseq s ks \<and> \<not> has_dislike_pair es s"
  by (auto simp: valid_subsets_def in_subsets_in_counting_order)

lemma invite_to_dinner_eq:
  assumes "find_dislikes friends = Inr es" and "set (iter es) = set es"
  shows "invite_to_dinner iter friends
           = Inr (longest_invite (valid_subsets es (dict_keys friends)))"
  unfolding invite_to_dinner_def valid_subsets_def
  by (simp add: generate_all_subsets_eq filter_bad_invites_eq [where iter = iter, OF assms])

lemma invite_to_dinner_optimized_eq:
  assumes "distinct (dict_keys friends)"
    and "find_dislikes friends = Inr es" and "set (iter es) = set es"
  shows "invite_to_dinner_optimized iter friends
           = Inr (longest_invite (valid_subsets es (dict_keys (entangled_entries friends)))
                  @ isolated_guests friends)"
  unfolding invite_to_dinner_optimized_def valid_subsets_def
  by (simp add: filter_no_dislikes_eq [OF assms(1)] generate_all_subsets_eq
      filter_bad_invites_eq [where iter = iter, OF assms(2,3)]
      isolated_guests_def entangled_entries_def)

text \<open>
  What the two functions compute. \<open>invite_to_dinner\<close> returns, of the valid subsets in
  enumeration order, the first one that is strictly longer than every valid subset
  before it and that no later valid subset exceeds: a tie keeps the earlier subset.
  \<open>invite_to_dinner_optimized\<close> returns the subset selected in the same way among the
  valid subsets of the keys with a non-empty list, followed by the keys with an empty
  list, both in key order.
\<close>

lemma selection_first_longest:
  assumes "distinct (dict_keys friends)" and "visits_all iter"
  shows "\<exists>es all_subsets isolated reduced bad_subsets best.
       find_dislikes friends = Inr es
     \<and> generate_all_subsets friends = Inr all_subsets
     \<and> invite_to_dinner iter friends
         = Inr (longest_invite (filter (\<lambda>s. \<not> has_dislike_pair es s) all_subsets))
     \<and> first_longest (longest_invite (filter (\<lambda>s. \<not> has_dislike_pair es s) all_subsets))
          (filter (\<lambda>s. \<not> has_dislike_pair es s) all_subsets)
     \<and> filter_no_dislikes friends = Inr (isolated, reduced)
     \<and> isolated = map fst (filter (\<lambda>(k, listed). listed = []) friends)
     \<and> reduced = filter (\<lambda>(k, listed). listed \<noteq> []) friends
     \<and> generate_all_subsets reduced = Inr bad_subsets
     \<and> first_longest best (filter (\<lambda>s. \<not> has_dislike_pair es s) bad_subsets)
     \<and> subseq best (dict_keys reduced)
     \<and> invite_to_dinner_optimized iter friends = Inr (best @ isolated)"
proof -
  obtain es where es: "find_dislikes friends = Inr es"
    using find_dislikes_returns by blast
  from assms(2) have it: "set (iter es) = set es" by (simp add: visits_all_def)
  let ?good = "valid_subsets es (dict_keys friends)"
  let ?good' = "valid_subsets es (dict_keys (entangled_entries friends))"
  have 1: "first_longest (longest_invite ?good) ?good"
    by (rule longest_invite_first_longest) (rule valid_subsets_nonempty)
  have 2: "first_longest (longest_invite ?good') ?good'"
    by (rule longest_invite_first_longest) (rule valid_subsets_nonempty)
  then have "longest_invite ?good' \<in> set ?good'"
    unfolding first_longest_def by (metis nth_mem)
  then have 3: "subseq (longest_invite ?good') (dict_keys (entangled_entries friends))"
    by (simp add: in_valid_subsets)
  show ?thesis
    using es 1 2 3 invite_to_dinner_eq [where iter = iter, OF es it]
      invite_to_dinner_optimized_eq [where iter = iter, OF assms(1) es it]
      filter_no_dislikes_eq [OF assms(1)]
    by (simp add: generate_all_subsets_eq valid_subsets_def isolated_guests_def
        entangled_entries_def)
qed

subsection \<open>The invite lists are duplicate-free lists of keys\<close>

lemma subseq_distinct_keys: "subseq xs ys \<Longrightarrow> distinct ys \<Longrightarrow> distinct xs"
  using subseqs_distinctD [of xs ys] by simp

lemma subseq_set_keys: "subseq xs ys \<Longrightarrow> set xs \<subseteq> set ys"
  using list_emb_set [of "(=)" xs ys] by auto

lemma entangled_subseq: "subseq (dict_keys (entangled_entries friends)) (dict_keys friends)"
  unfolding dict_keys_def entangled_entries_def by (intro subseq_map) simp

lemma isolated_subseq: "subseq (isolated_guests friends) (dict_keys friends)"
  unfolding dict_keys_def isolated_guests_def by (intro subseq_map) simp

lemma isolated_not_entangled:
  assumes "distinct (dict_keys friends)"
  shows "set (dict_keys (entangled_entries friends)) \<inter> set (isolated_guests friends) = {}"
proof (rule ccontr)
  assume "set (dict_keys (entangled_entries friends)) \<inter> set (isolated_guests friends) \<noteq> {}"
  then obtain k listed where "(k, listed) \<in> set friends" "listed \<noteq> []" "(k, []) \<in> set friends"
    by (auto simp: dict_keys_def entangled_entries_def isolated_guests_def)
  with assms show False
    using eq_key_imp_eq_value [of friends k listed "[]"] by (simp add: dict_keys_def)
qed

lemma longest_invite_valid:
  "longest_invite (valid_subsets es ks) \<in> set (valid_subsets es ks)"
proof -
  have "first_longest (longest_invite (valid_subsets es ks)) (valid_subsets es ks)"
    by (rule longest_invite_first_longest) (rule valid_subsets_nonempty)
  then show ?thesis unfolding first_longest_def by (metis nth_mem)
qed

text \<open>
  Claim C10. For every input dislike mapping, the list returned by \<open>invite_to_dinner\<close>
  and the list returned by \<open>invite_to_dinner_optimized\<close> contain no guest twice, and
  every element of either list is a key of the input mapping.
\<close>

theorem selection_distinct_keys:
  assumes "distinct (dict_keys friends)" and "visits_all iter"
  shows "\<exists>invite_list invite_list'.
       invite_to_dinner iter friends = Inr invite_list
     \<and> invite_to_dinner_optimized iter friends = Inr invite_list'
     \<and> distinct invite_list \<and> set invite_list \<subseteq> set (dict_keys friends)
     \<and> distinct invite_list' \<and> set invite_list' \<subseteq> set (dict_keys friends)"
proof -
  obtain es where es: "find_dislikes friends = Inr es"
    using find_dislikes_returns by blast
  from assms(2) have it: "set (iter es) = set es" by (simp add: visits_all_def)
  let ?keys = "dict_keys friends"
  let ?ent = "dict_keys (entangled_entries friends)"
  let ?iso = "isolated_guests friends"
  let ?r = "longest_invite (valid_subsets es ?keys)"
  let ?best = "longest_invite (valid_subsets es ?ent)"
  have r: "subseq ?r ?keys"
    using longest_invite_valid [of es ?keys] by (simp add: in_valid_subsets)
  have b: "subseq ?best ?ent"
    using longest_invite_valid [of es ?ent] by (simp add: in_valid_subsets)
  have dr: "distinct ?r" using r assms(1) by (rule subseq_distinct_keys)
  have sr: "set ?r \<subseteq> set ?keys" using r by (rule subseq_set_keys)
  have dent: "distinct ?ent" using entangled_subseq assms(1) by (rule subseq_distinct_keys)
  have db: "distinct ?best" using b dent by (rule subseq_distinct_keys)
  have di: "distinct ?iso" using isolated_subseq assms(1) by (rule subseq_distinct_keys)
  have sb: "set ?best \<subseteq> set ?ent" using b by (rule subseq_set_keys)
  have se: "set ?ent \<subseteq> set ?keys" using entangled_subseq by (rule subseq_set_keys)
  have si: "set ?iso \<subseteq> set ?keys" using isolated_subseq by (rule subseq_set_keys)
  have disj: "set ?best \<inter> set ?iso = {}"
    using sb isolated_not_entangled [OF assms(1)] by blast
  have d': "distinct (?best @ ?iso)" using db di disj by simp
  have s': "set (?best @ ?iso) \<subseteq> set ?keys" using sb se si by auto
  show ?thesis
    using dr sr d' s' invite_to_dinner_eq [where iter = iter, OF es it]
      invite_to_dinner_optimized_eq [where iter = iter, OF assms(1) es it]
    by simp
qed

text \<open>
  Claim C9. Both selection functions are deterministic. The dictionary and the lists are
  traversed in a fixed order; the only order the language leaves open is that of the
  loop over the set of pairs, and the result does not depend on it: two runs on the same
  input, whatever order each of them visits the set in, return the same list (or raise
  the same error), so in particular lists of the same length.
\<close>

theorem selection_deterministic:
  assumes "visits_all iter" and "visits_all iter'"
  shows "invite_to_dinner iter friends = invite_to_dinner iter' friends
       \<and> invite_to_dinner_optimized iter friends = invite_to_dinner_optimized iter' friends"
proof -
  obtain es where es: "find_dislikes friends = Inr es"
    using find_dislikes_returns by blast
  from assms have it: "set (iter es) = set es" and it': "set (iter' es) = set es"
    by (simp_all add: visits_all_def)
  have "filter_bad_invites iter subsets friends = filter_bad_invites iter' subsets friends"
    for subsets
    by (simp add: filter_bad_invites_eq [where iter = iter, OF es it]
        filter_bad_invites_eq [where iter = iter', OF es it'])
  then show ?thesis
    by (simp add: invite_to_dinner_def invite_to_dinner_optimized_def cong: sum.case_cong)
qed

subsection \<open>When the two functions agree\<close>

text \<open>
  \<open>invite_to_dinner\<close> always returns a valid list of keys of the largest possible size.
\<close>

lemma has_dislike_pair_mono:
  "set s \<subseteq> set t \<Longrightarrow> has_dislike_pair es s \<Longrightarrow> has_dislike_pair es t"
  unfolding has_dislike_pair_def by blast

lemma invite_to_dinner_valid_largest:
  assumes "visits_all iter"
  shows "\<exists>es invite_list.
       find_dislikes friends = Inr es
     \<and> invite_to_dinner iter friends = Inr invite_list
     \<and> subseq invite_list (dict_keys friends)
     \<and> \<not> has_dislike_pair es invite_list
     \<and> (\<forall>s. subseq s (dict_keys friends) \<longrightarrow> \<not> has_dislike_pair es s
            \<longrightarrow> length s \<le> length invite_list)"
proof -
  obtain es where es: "find_dislikes friends = Inr es"
    using find_dislikes_returns by blast
  from assms have it: "set (iter es) = set es" by (simp add: visits_all_def)
  let ?r = "longest_invite (valid_subsets es (dict_keys friends))"
  have "?r \<in> set (valid_subsets es (dict_keys friends))" by (rule longest_invite_valid)
  then have 1: "subseq ?r (dict_keys friends)" "\<not> has_dislike_pair es ?r"
    by (simp_all add: in_valid_subsets)
  have 2: "length s \<le> length ?r"
    if "subseq s (dict_keys friends)" "\<not> has_dislike_pair es s" for s
    using that by (intro longest_invite_upper) (simp add: in_valid_subsets)
  show ?thesis
    using es 1 2 invite_to_dinner_eq [where iter = iter, OF es it] by auto
qed

text \<open>
  When no guest lists an isolated guest, the list of \<open>invite_to_dinner_optimized\<close> is
  valid too and has the same length.
\<close>

lemma entangled_keys_filter:
  assumes "distinct (dict_keys friends)"
  shows "filter (\<lambda>k. k \<in> set (dict_keys (entangled_entries friends))) (dict_keys friends)
           = dict_keys (entangled_entries friends)"
proof -
  have "(fst p \<in> set (dict_keys (entangled_entries friends))) = (snd p \<noteq> [])"
    if "p \<in> set friends" for p
  proof
    assume "fst p \<in> set (dict_keys (entangled_entries friends))"
    then obtain listed where "(fst p, listed) \<in> set friends" "listed \<noteq> []"
      by (auto simp: dict_keys_def entangled_entries_def)
    moreover from that have "(fst p, snd p) \<in> set friends" by simp
    ultimately show "snd p \<noteq> []"
      using assms eq_key_imp_eq_value [of friends "fst p" listed "snd p"]
      by (simp add: dict_keys_def)
  next
    assume "snd p \<noteq> []"
    with that show "fst p \<in> set (dict_keys (entangled_entries friends))"
      by (force simp: dict_keys_def entangled_entries_def)
  qed
  then have "filter (\<lambda>p. fst p \<in> set (dict_keys (entangled_entries friends))) friends
           = filter (\<lambda>p. snd p \<noteq> []) friends"
    by (intro filter_cong) auto
  then show ?thesis
    by (simp add: dict_keys_def [of friends] filter_map comp_def)
       (simp add: dict_keys_def entangled_entries_def case_prod_unfold)
qed

lemma keys_entangled_or_isolated:
  "set (dict_keys friends)
     = set (dict_keys (entangled_entries friends)) \<union> set (isolated_guests friends)"
  by (auto simp: dict_keys_def entangled_entries_def isolated_guests_def)

lemma optimized_valid:
  assumes "distinct (dict_keys friends)" and "isolated_unlisted friends"
    and es: "find_dislikes friends = Inr es"
    and best: "\<not> has_dislike_pair es best"
  shows "\<not> has_dislike_pair es (best @ isolated_guests friends)"
proof
  assume "has_dislike_pair es (best @ isolated_guests friends)"
  then obtain a b where ab: "(a, b) \<in> set es"
    "a \<in> set best \<union> set (isolated_guests friends)"
    "b \<in> set best \<union> set (isolated_guests friends)"
    unfolding has_dislike_pair_def by force
  from find_dislikes_listed [OF es ab(1)] obtain listed where l:
    "dict_getitem friends a = Inr listed" "b \<in> set listed"
    by (auto simp: listed_by_def)
  then have entry: "(a, listed) \<in> set friends" by (simp add: dict_getitem_entry)
  with l(2) assms(2) have b: "b \<notin> set (isolated_guests friends)"
    unfolding isolated_unlisted_def by blast
  from entry l(2) have "a \<in> set (dict_keys (entangled_entries friends))"
    by (force simp: dict_keys_def entangled_entries_def)
  with isolated_not_entangled [OF assms(1)] have a: "a \<notin> set (isolated_guests friends)"
    by blast
  from ab a b have "has_dislike_pair es best"
    unfolding has_dislike_pair_def by force
  with best show False ..
qed

lemma selection_agree:
  assumes d: "distinct (dict_keys friends)" and "visits_all iter"
    and u: "isolated_unlisted friends"
  shows "\<exists>es invite_list invite_list'.
       find_dislikes friends = Inr es
     \<and> invite_to_dinner iter friends = Inr invite_list
     \<and> invite_to_dinner_optimized iter friends = Inr invite_list'
     \<and> length invite_list = length invite_list'
     \<and> \<not> has_dislike_pair es invite_list
     \<and> \<not> has_dislike_pair es invite_list'"
proof -
  obtain es where es: "find_dislikes friends = Inr es"
    using find_dislikes_returns by blast
  from assms(2) have it: "set (iter es) = set es" by (simp add: visits_all_def)
  let ?keys = "dict_keys friends"
  let ?ent = "dict_keys (entangled_entries friends)"
  let ?iso = "isolated_guests friends"
  let ?r = "longest_invite (valid_subsets es ?keys)"
  let ?best = "longest_invite (valid_subsets es ?ent)"
  have r: "subseq ?r ?keys" "\<not> has_dislike_pair es ?r"
    using longest_invite_valid [of es ?keys] by (simp_all add: in_valid_subsets)
  have b: "subseq ?best ?ent" "\<not> has_dislike_pair es ?best"
    using longest_invite_valid [of es ?ent] by (simp_all add: in_valid_subsets)
  have dent: "distinct ?ent" using entangled_subseq d by (rule subseq_distinct_keys)
  have db: "distinct ?best" using b(1) dent by (rule subseq_distinct_keys)
  have di: "distinct ?iso" using isolated_subseq d by (rule subseq_distinct_keys)
  have dr: "distinct ?r" using r(1) d by (rule subseq_distinct_keys)
  have sb: "set ?best \<subseteq> set ?ent" using b(1) by (rule subseq_set_keys)
  have se: "set ?ent \<subseteq> set ?keys" using entangled_subseq by (rule subseq_set_keys)
  have si: "set ?iso \<subseteq> set ?keys" using isolated_subseq by (rule subseq_set_keys)
  have sr: "set ?r \<subseteq> set ?keys" using r(1) by (rule subseq_set_keys)
  have disj: "set ?best \<inter> set ?iso = {}"
    using sb isolated_not_entangled [OF d] by blast
  have v': "\<not> has_dislike_pair es (?best @ ?iso)"
    using d u es b(2) by (rule optimized_valid)
  \<comment> \<open>the optimized list, put in key order, is one of the valid subsets of all keys\<close>
  let ?c = "filter (\<lambda>k. k \<in> set ?best \<union> set ?iso) ?keys"
  have sc: "set ?c = set (?best @ ?iso)" using sb se si by auto
  have "distinct ?c" using d by simp
  then have "length ?c = card (set (?best @ ?iso))" using sc by (metis distinct_card)
  also have "\<dots> = length (?best @ ?iso)" using db di disj by (intro distinct_card) simp
  finally have lc: "length ?c = length ?best + length ?iso" by simp
  have "\<not> has_dislike_pair es ?c"
    using v' sc has_dislike_pair_mono [of ?c "?best @ ?iso" es] by auto
  then have "?c \<in> set (valid_subsets es ?keys)" by (simp add: in_valid_subsets)
  then have ge: "length ?best + length ?iso \<le> length ?r"
    using longest_invite_upper [of ?c] lc by simp
  \<comment> \<open>the naive list splits into a valid subset of the entangled keys and isolated guests\<close>
  let ?re = "filter (\<lambda>k. k \<in> set ?ent) ?r"
  let ?ri = "filter (\<lambda>k. k \<notin> set ?ent) ?r"
  have "subseq ?re (filter (\<lambda>k. k \<in> set ?ent) ?keys)" using r(1) by (rule subseq_filter)
  then have "subseq ?re ?ent" by (simp only: entangled_keys_filter [OF d])
  moreover have "\<not> has_dislike_pair es ?re"
    using r(2) has_dislike_pair_mono [of ?re ?r es] by auto
  ultimately have "?re \<in> set (valid_subsets es ?ent)" by (simp add: in_valid_subsets)
  then have le1: "length ?re \<le> length ?best" by (rule longest_invite_upper)
  have "set ?ri \<subseteq> set ?iso" using sr keys_entangled_or_isolated [of friends] by auto
  then have "card (set ?ri) \<le> card (set ?iso)" by (intro card_mono) simp_all
  moreover have "distinct ?ri" using dr by simp
  ultimately have le2: "length ?ri \<le> length ?iso"
    using di distinct_card [of ?ri] distinct_card [of ?iso] by simp
  have "length ?r = length ?re + length ?ri"
    using sum_length_filter_compl [of "\<lambda>k. k \<in> set ?ent" ?r] by simp
  with le1 le2 ge have "length ?r = length (?best @ ?iso)" by simp
  then show ?thesis
    using es r(2) v' invite_to_dinner_eq [where iter = iter, OF es it]
      invite_to_dinner_optimized_eq [where iter = iter, OF d es it]
    by simp
qed

subsection \<open>The theorems at a mapping with one isolated guest\<close>

lemma example_distinct: "distinct (dict_keys example_friends)"
  by (simp add: dict_keys_def)

lemma visits_all_id: "visits_all (\<lambda>es. es)"
  by (simp add: visits_all_def)

lemma visits_all_rev: "visits_all rev"
  by (simp add: visits_all_def)

lemma example_naive: "invite_to_dinner (\<lambda>es. es) example_friends = Inr [''Bob'', ''Cleo'']"
  by code_simp

lemma example_optimized:
  "invite_to_dinner_optimized (\<lambda>es. es) example_friends = Inr [''Bob'', ''Cleo'']"
  by code_simp

text \<open>
  The selection at \<open>{'Alice': ['Bob'], 'Bob': ['Alice'], 'Cleo': []}\<close>: of the six valid
  subsets \<open>['Bob', 'Cleo']\<close> is the first of size two, and of the three valid subsets of
  \<open>'Alice'\<close> and \<open>'Bob'\<close> the list \<open>['Bob']\<close> is the first of size one.
\<close>

lemma selection_first_longest_example:
  "distinct (dict_keys example_friends)
   \<and> visits_all (\<lambda>es. es)
   \<and> invite_to_dinner (\<lambda>es. es) example_friends = Inr [''Bob'', ''Cleo'']
   \<and> first_longest [''Bob'', ''Cleo'']
         [[], [''Cleo''], [''Bob''], [''Bob'', ''Cleo''], [''Alice''], [''Alice'', ''Cleo'']]
   \<and> first_longest [''Bob''] [[], [''Bob''], [''Alice'']]
   \<and> invite_to_dinner_optimized (\<lambda>es. es) example_friends = Inr ([''Bob''] @ [''Cleo''])"
proof -
  have e1: "find_dislikes example_friends = Inr [(''Alice'', ''Bob'')]"
    by code_simp
  have e2: "generate_all_subsets example_friends
      = Inr [[], [''Cleo''], [''Bob''], [''Bob'', ''Cleo''], [''Alice''], [''Alice'', ''Cleo''],
             [''Alice'', ''Bob''], [''Alice'', ''Bob'', ''Cleo'']]"
    by code_simp
  have e3: "filter (\<lambda>s. \<not> has_dislike_pair [(''Alice'', ''Bob'')] s)
        [[], [''Cleo''], [''Bob''], [''Bob'', ''Cleo''], [''Alice''], [''Alice'', ''Cleo''],
         [''Alice'', ''Bob''], [''Alice'', ''Bob'', ''Cleo'']]
      = [[], [''Cleo''], [''Bob''], [''Bob'', ''Cleo''], [''Alice''], [''Alice'', ''Cleo'']]"
    by (simp add: has_dislike_pair_def)
  have e4: "longest_invite
        [[], [''Cleo''], [''Bob''], [''Bob'', ''Cleo''], [''Alice''], [''Alice'', ''Cleo'']]
      = [''Bob'', ''Cleo'']"
    by (simp add: longest_invite_def)
  have e5: "generate_all_subsets [(''Alice'', [''Bob'']), (''Bob'', [''Alice''])]
      = Inr [[], [''Bob''], [''Alice''], [''Alice'', ''Bob'']]"
    by code_simp
  have e6: "filter (\<lambda>s. \<not> has_dislike_pair [(''Alice'', ''Bob'')] s)
        [[], [''Bob''], [''Alice''], [''Alice'', ''Bob'']]
      = [[], [''Bob''], [''Alice'']]"
    by (simp add: has_dislike_pair_def)
  have e7: "filter (\<lambda>(k, listed). listed \<noteq> []) example_friends
      = [(''Alice'', [''Bob'']), (''Bob'', [''Alice''])]"
    by simp
  have e8: "map fst (filter (\<lambda>(k, listed). listed = []) example_friends) = [''Cleo'']"
    by simp
  from selection_first_longest [OF example_distinct visits_all_id]
  obtain es all_subsets isolated reduced bad_subsets best where h:
    "find_dislikes example_friends = Inr es"
    "generate_all_subsets example_friends = Inr all_subsets"
    "first_longest (longest_invite (filter (\<lambda>s. \<not> has_dislike_pair es s) all_subsets))
          (filter (\<lambda>s. \<not> has_dislike_pair es s) all_subsets)"
    "isolated = map fst (filter (\<lambda>(k, listed). listed = []) example_friends)"
    "reduced = filter (\<lambda>(k, listed). listed \<noteq> []) example_friends"
    "generate_all_subsets reduced = Inr bad_subsets"
    "first_longest best (filter (\<lambda>s. \<not> has_dislike_pair es s) bad_subsets)"
    "invite_to_dinner_optimized (\<lambda>es. es) example_friends = Inr (best @ isolated)"
    by blast
  from h(1) have es: "es = [(''Alice'', ''Bob'')]" unfolding e1 by simp
  from h(2) have al: "all_subsets
      = [[], [''Cleo''], [''Bob''], [''Bob'', ''Cleo''], [''Alice''], [''Alice'', ''Cleo''],
         [''Alice'', ''Bob''], [''Alice'', ''Bob'', ''Cleo'']]"
    unfolding e2 by simp
  from h(4) have iso: "isolated = [''Cleo'']" unfolding e8 .
  from h(5) have red: "reduced = [(''Alice'', [''Bob'']), (''Bob'', [''Alice''])]" unfolding e7 .
  from h(6) have bad: "bad_subsets = [[], [''Bob''], [''Alice''], [''Alice'', ''Bob'']]"
    unfolding red e5 by simp
  from h(3) have 1: "first_longest [''Bob'', ''Cleo'']
      [[], [''Cleo''], [''Bob''], [''Bob'', ''Cleo''], [''Alice''], [''Alice'', ''Cleo'']]"
    unfolding es al e3 e4 .
  from h(7) have 2: "first_longest best [[], [''Bob''], [''Alice'']]"
    unfolding es bad e6 .
  from h(8) have "best = [''Bob'']"
    unfolding iso example_optimized by simp
  with 1 2 show ?thesis
    by (simp add: example_distinct visits_all_id example_naive example_optimized)
qed

text \<open>Claim C10 at the same mapping.\<close>

theorem selection_distinct_keys_witness:
  "distinct (dict_keys example_friends)
   \<and> visits_all (\<lambda>es. es)
   \<and> invite_to_dinner (\<lambda>es. es) example_friends = Inr [''Bob'', ''Cleo'']
   \<and> invite_to_dinner_optimized (\<lambda>es. es) example_friends = Inr [''Bob'', ''Cleo'']
   \<and> distinct [''Bob'', ''Cleo'']
   \<and> set [''Bob'', ''Cleo''] \<subseteq> set (dict_keys example_friends)"
  using selection_distinct_keys [OF example_distinct visits_all_id]
  by (simp add: example_naive example_optimized example_distinct visits_all_id)

text \<open>Claim C9 at the same mapping, the set visited in insertion order and in reverse.\<close>

theorem selection_deterministic_witness:
  "visits_all (\<lambda>es. es) \<and> visits_all rev
   \<and> invite_to_dinner (\<lambda>es. es) example_friends = invite_to_dinner rev example_friends
   \<and> invite_to_dinner_optimized (\<lambda>es. es) example_friends
       = invite_to_dinner_optimized rev example_friends"
  using selection_deterministic [OF visits_all_id visits_all_rev, of example_friends]
  by (simp add: visits_all_id visits_all_rev)

subsection \<open>A dislike listed in one direction only\<close>

text \<open>
  Claim C1 says that for every input mapping the two selection functions return lists
  of equal length, neither of which contains both endpoints of a dislike pair. This does
  not hold of the code. On \<open>{'Alice': ['Bob'], 'Bob': []}\<close> the only dislike pair is
  \<open>('Alice', 'Bob')\<close>; \<open>invite_to_dinner\<close> returns \<open>['Bob']\<close>, while
  \<open>invite_to_dinner_optimized\<close> returns \<open>['Alice', 'Bob']\<close>: a list of another length
  that contains both endpoints of the pair. \<open>filter_no_dislikes\<close> takes \<open>'Bob'\<close> for
  isolated because his own list is empty, although \<open>'Alice'\<close> lists him.
\<close>

theorem optimized_invites_disliked_pair:
  "find_dislikes [(''Alice'', [''Bob'']), (''Bob'', [])] = Inr [(''Alice'', ''Bob'')]
   \<and> invite_to_dinner (\<lambda>es. es) [(''Alice'', [''Bob'']), (''Bob'', [])] = Inr [''Bob'']
   \<and> invite_to_dinner_optimized (\<lambda>es. es) [(''Alice'', [''Bob'']), (''Bob'', [])]
       = Inr [''Alice'', ''Bob'']"
  by code_simp

text \<open>
  Claim C2 says that the first component of \<open>filter_no_dislikes\<close> lists exactly the
  guests that appear in no dislike relation, neither with a non-empty list of their own
  nor inside the list of another guest, and that the second component holds the entries
  of the other guests. This does not hold of the code. On the same mapping \<open>'Bob'\<close> is
  returned in the first component and his entry is missing from the second, although he
  appears inside the dislike list of \<open>'Alice'\<close>: the function looks only at the guest's
  own list.
\<close>

theorem filter_no_dislikes_listed_guest:
  "filter_no_dislikes [(''Alice'', [''Bob'']), (''Bob'', [])]
     = Inr ([''Bob''], [(''Alice'', [''Bob''])])"
  by code_simp

text \<open>
  Claim C6 says that \<open>invite_to_dinner\<close> returns the first valid subset that is strictly
  larger than every earlier one, and that \<open>invite_to_dinner_optimized\<close> returns the best
  subset of the entangled guests followed by the full list of the isolated guests. The
  first half holds (lemma \<open>selection_first_longest\<close>). The second does not hold of the
  code. On the same mapping \<open>'Alice'\<close> lists \<open>'Bob'\<close>, so both guests are entangled and
  none is isolated; the valid subsets of the two guests are \<open>[]\<close>, \<open>['Bob']\<close> and
  \<open>['Alice']\<close>, and the first longest of them is \<open>['Bob']\<close>. The code returns
  \<open>['Alice', 'Bob']\<close>: it selects among subsets of \<open>'Alice'\<close> alone and appends \<open>'Bob'\<close>
  as if he were isolated.
\<close>

theorem optimized_selection_listed_guest:
  "dict_getitem [(''Alice'', [''Bob'']), (''Bob'', [])] ''Alice'' = Inr [''Bob'']
   \<and> valid_subsets [(''Alice'', ''Bob'')] [''Alice'', ''Bob''] = [[], [''Bob''], [''Alice'']]
   \<and> longest_invite [[], [''Bob''], [''Alice'']] = [''Bob'']
   \<and> invite_to_dinner_optimized (\<lambda>es. es) [(''Alice'', [''Bob'']), (''Bob'', [])]
       = Inr ([''Alice''] @ [''Bob''])"
proof -
  have "subsets_in_counting_order [''Alice'', ''Bob'']
      = [[], [''Bob''], [''Alice''], [''Alice'', ''Bob'']]"
    by (simp add: subsets_in_counting_order_Cons subsets_in_counting_order_Nil)
  then have "valid_subsets [(''Alice'', ''Bob'')] [''Alice'', ''Bob'']
      = [[], [''Bob''], [''Alice'']]"
    by (simp add: valid_subsets_def has_dislike_pair_def)
  moreover have "longest_invite [[], [''Bob''], [''Alice'']] = [''Bob'']"
    by (simp add: longest_invite_def)
  moreover have "invite_to_dinner_optimized (\<lambda>es. es) [(''Alice'', [''Bob'']), (''Bob'', [])]
       = Inr ([''Alice''] @ [''Bob''])"
    by code_simp
  ultimately show ?thesis by (simp add: dict_getitem_def)
qed

lemma fold_skip: "fold (\<lambda>x s. s) xs s = s"
  by (induction xs) auto

section \<open>The empty guest mapping\<close>

text \<open>
  Claim C8. On the empty guest mapping, \<open>invite_to_dinner\<close> and
  \<open>invite_to_dinner_optimized\<close> both return the empty invite list and raise no error,
  whatever the order in which the set of dislike pairs is visited.
\<close>

theorem empty_mapping_empty_invite:
  "invite_to_dinner iter [] = Inr [] \<and> invite_to_dinner_optimized iter [] = Inr []"
  by (simp add: invite_to_dinner_def invite_to_dinner_optimized_def generate_all_subsets_def
      subset_of_number_def filter_bad_invites_def filter_bad_invites_heap_def
      collect_bad_invites_def find_dislikes_def filter_no_dislikes_def dict_keys_def
      longest_invite_def fold_skip)

end
